theory Spec2Isabelle
  imports Main
begin


section \<open>The streaming batch ingestion service (ingestion.service.ts)\<close>

text \<open>
  A shallow embedding of \<^verbatim>\<open>IngestionService\<close>. The service pulls the elements of a
  streamed JSON array, maps each of them through the source's mapper, groups the mapped
  records into batches of \<^verbatim>\<open>BATCH_SIZE\<close> and hands every batch to the repository,
  keeping at most \<^verbatim>\<open>MAX_CONCURRENT_BATCHES\<close> write promises registered at a time.

  The collaborators (HTTP client, JSON streamer, mapper, repository) are inputs of the
  model. Every promise the environment hands out is taken to settle, and a stream to
  deliver finitely many elements. The main control flow is recorded as a list of events
  in program order; what the continuation of a \<^verbatim>\<open>saveBatch\<close> call logs once its write
  settles is computed by \<open>saveBatch\<close> itself and kept apart, since the moment a write
  settles is the repository's choice.
\<close>

subsection \<open>JavaScript values\<close>

text \<open>
  A number is NaN, an infinity (with its sign) or sign, magnitude and exponent of a finite
  value, so that \<open>+0\<close> and \<open>-0\<close> are the finite values of magnitude \<open>0\<close>. Objects, arrays
  and functions are opaque references.
\<close>

datatype jsnum = JsNaN | JsInfinity bool | JsFinite bool nat int

datatype jsval =
    JUndefined
  | JNull
  | JBool bool
  | JNumber jsnum
  | JBigInt int
  | JString string
  | JObject nat

text \<open>ToBoolean, as \<^verbatim>\<open>!mapped\<close> applies it.\<close>

fun truthy :: "jsval \<Rightarrow> bool" where
  "truthy JUndefined = False"
| "truthy JNull = False"
| "truthy (JBool b) = b"
| "truthy (JNumber JsNaN) = False"
| "truthy (JNumber (JsInfinity s)) = True"
| "truthy (JNumber (JsFinite s m e)) = (m \<noteq> 0)"
| "truthy (JBigInt i) = (i \<noteq> 0)"
| "truthy (JString s) = (s \<noteq> [])"
| "truthy (JObject r) = True"

text \<open>
  A thrown value (or rejection reason): an instance of \<^verbatim>\<open>Error\<close> with its message and
  stack, a string, null, undefined, or any other value, given by what
  \<^verbatim>\<open>JSON.stringify\<close> makes of it (\<open>None\<close> when that throws) and by what \<^verbatim>\<open>String(...)\<close>
  does on it: \<open>ThrownOther\<close> when it returns a string, \<open>ThrownUnprintable\<close> when it throws
  (on an object without a prototype, or one whose \<^verbatim>\<open>toString\<close> throws), with the value it
  throws.
\<close>

datatype thrown =
    ErrorObject string "string option"
  | ThrownString string
  | ThrownNull
  | ThrownUndefined
  | ThrownOther "string option" string
  | ThrownUnprintable "string option" thrown

text \<open>\<^verbatim>\<open>String(error)\<close>: the string, or what the conversion throws.\<close>

fun String_of :: "thrown \<Rightarrow> thrown + string" where
  "String_of (ErrorObject m st) = Inr (''Error: '' @ m)"
| "String_of (ThrownString s) = Inr s"
| "String_of ThrownNull = Inr ''null''"
| "String_of ThrownUndefined = Inr ''undefined''"
| "String_of (ThrownOther j t) = Inr t"
| "String_of (ThrownUnprintable j t) = Inl t"

subsection \<open>Logger\<close>

datatype level = LOG | ERROR | DEBUG

text \<open>A logger call: level, message and the optional second argument (a stack trace).\<close>

datatype log_entry = Entry level string "string option"

fun digit :: "nat \<Rightarrow> char" where
  "digit n = char_of (48 + n)"

function show_nat :: "nat \<Rightarrow> string" where
  "show_nat n = (if n < 10 then [digit n] else show_nat (n div 10) @ [digit (n mod 10)])"
  by pat_completeness auto
termination
  by (relation "measure (\<lambda>n. n)") auto

subsection \<open>Collaborators\<close>

text \<open>
  What the JSON streamer and the Node runtime deliver while the loop awaits the next
  element: an element of the array, or the \<^verbatim>\<open>pipeline\<close> callback firing with its argument.
  A callback that fires once the loop has been left is not recorded.
\<close>

datatype stream_event = Element jsval | PipelineCallback thrown

text \<open>
  A response stream: what is delivered, how the iteration ends (\<open>None\<close>: the iterator
  completes; \<open>Some e\<close>: it raises \<open>e\<close>) and how \<^verbatim>\<open>finished(responseStream)\<close> settles.
\<close>

record response =
  delivered :: "stream_event list"
  ended :: "thrown option"
  finished :: "thrown option"

datatype save_result = Resolves | Rejects thrown | ThrowsSync thrown

text \<open>
  The repository: how \<^verbatim>\<open>saveAll(batch)\<close> behaves when the \<open>k\<close>-th \<^verbatim>\<open>saveBatch\<close> call of
  the run invokes it.
\<close>

type_synonym repository = "nat \<Rightarrow> jsval list \<Rightarrow> save_result"

record environment =
  getStream :: "string \<Rightarrow> thrown + response"
  saveAll :: repository

record IngestionSource =
  name :: string
  url :: string
  mapper :: "jsval \<Rightarrow> thrown + jsval"

subsection \<open>Constants\<close>

definition BATCH_SIZE :: nat where
  "BATCH_SIZE = 5000"

definition MAX_CONCURRENT_BATCHES :: nat where
  "MAX_CONCURRENT_BATCHES = 3"

subsection \<open>Events of the main control flow\<close>

datatype settlement = Fulfilled | RejectedWith thrown

text \<open>A promise returned by \<^verbatim>\<open>saveBatch\<close>: the number of the call and how it settles.\<close>

type_synonym promise = "nat \<times> settlement"

datatype event =
    Logged log_entry
  | SaveBatch nat "jsval list"
  | AwaitAllSettled "nat list"

text \<open>
  \<open>SaveBatch k b\<close>: \<^verbatim>\<open>this.saveBatch(b)\<close> is called, for the \<open>k\<close>-th time in the run.
  \<open>AwaitAllSettled ks\<close>: the control flow awaits \<^verbatim>\<open>Promise.allSettled\<close> of the promises
  of the calls \<open>ks\<close>.
\<close>

subsection \<open>saveBatch\<close>

text \<open>
  The \<^verbatim>\<open>catch\<close> block of \<^verbatim>\<open>saveBatch\<close>: the entry it logs, or what it throws when
  \<^verbatim>\<open>String(error)\<close> throws; then nothing is logged and the promise of the call rejects.
\<close>

definition save_failure :: "thrown \<Rightarrow> thrown + log_entry" where
  "save_failure error =
     (case error of
        ErrorObject m st \<Rightarrow> Inr (Entry ERROR (''Failed to save batch: '' @ m) None)
      | _ \<Rightarrow>
          (case String_of error of
             Inl t \<Rightarrow> Inl t
           | Inr s \<Rightarrow> Inr (Entry ERROR (''Failed to save batch: '' @ s) None)))"

definition save_catch :: "thrown \<Rightarrow> log_entry list \<times> settlement" where
  "save_catch error =
     (case save_failure error of
        Inl t \<Rightarrow> ([], RejectedWith t)
      | Inr entry \<Rightarrow> ([entry], Fulfilled))"

text \<open>
  The log entries of the call's continuation and the settlement of the promise it
  returns.
\<close>

definition saveBatch :: "repository \<Rightarrow> nat \<Rightarrow> jsval list \<Rightarrow> log_entry list \<times> settlement" where
  "saveBatch repo k b =
     (if length b = 0 then ([], Fulfilled)
      else
        (case repo k b of
           Resolves \<Rightarrow>
             ([Entry DEBUG (''Saved batch of '' @ show_nat (length b) @ '' records'') None],
              Fulfilled)
         | Rejects error \<Rightarrow> save_catch error
         | ThrowsSync error \<Rightarrow> save_catch error))"

subsection \<open>flushPending\<close>

text \<open>
  \<^verbatim>\<open>Promise.allSettled\<close> fulfils with the settlements of its promises, whatever they
  are, once every one of them has settled.
\<close>

definition allSettled :: "settlement list \<Rightarrow> thrown + settlement list" where
  "allSettled ps = Inr ps"

definition allSettled_resumes :: "nat set \<Rightarrow> nat list \<Rightarrow> bool" where
  "allSettled_resumes settled ks = list_all (\<lambda>k. k \<in> settled) ks"

text \<open>The events, the error raised (if any) and the array \<^verbatim>\<open>pending\<close> afterwards.\<close>

definition flushPending :: "promise list \<Rightarrow> event list \<times> thrown option \<times> promise list" where
  "flushPending pending =
     (case allSettled (map snd pending) of
        Inl e \<Rightarrow> ([AwaitAllSettled (map fst pending)], Some e, pending)
      | Inr results \<Rightarrow> ([AwaitAllSettled (map fst pending)], None, []))"

subsection \<open>ingestSource\<close>

text \<open>The local state of one \<^verbatim>\<open>ingestSource\<close> call, and the number of \<^verbatim>\<open>saveBatch\<close> calls of the run.\<close>

record ingest_state =
  batch :: "jsval list"
  pendingSaves :: "promise list"
  saveCalls :: nat

text \<open>
  \<^verbatim>\<open>pendingSaves.push(this.saveBatch(batch.splice(0, n)))\<close>: the first \<open>n\<close> records leave
  the buffer and the promise of the call is registered.
\<close>

definition submit :: "repository \<Rightarrow> nat \<Rightarrow> ingest_state \<Rightarrow> event list \<times> ingest_state" where
  "submit repo n st =
     (let b = take n (batch st); k = saveCalls st
      in ([SaveBatch k b],
          st\<lparr>batch := drop n (batch st),
             pendingSaves := pendingSaves st @ [(k, snd (saveBatch repo k b))],
             saveCalls := Suc k\<rparr>))"

text \<open>The body of the \<^verbatim>\<open>for await\<close> loop on one element.\<close>

definition loopBody ::
  "repository \<Rightarrow> (jsval \<Rightarrow> thrown + jsval) \<Rightarrow> ingest_state \<Rightarrow> jsval
     \<Rightarrow> event list \<times> thrown option \<times> ingest_state" where
  "loopBody repo mapFn st v =
     (case mapFn v of
        Inl e \<Rightarrow> ([], Some e, st)
      | Inr mapped \<Rightarrow>
          if \<not> truthy mapped then ([], None, st)
          else
            (let st1 = st\<lparr>batch := batch st @ [mapped]\<rparr>
             in if length (batch st1) \<ge> BATCH_SIZE then
                  (let (evs, st2) = submit repo BATCH_SIZE st1
                   in if length (pendingSaves st2) \<ge> MAX_CONCURRENT_BATCHES then
                        (let (evs', err, pending) = flushPending (pendingSaves st2)
                         in (evs @ evs', err, st2\<lparr>pendingSaves := pending\<rparr>))
                      else (evs, None, st2))
                else ([], None, st1)))"

text \<open>The callback given to \<^verbatim>\<open>pipeline\<close>.\<close>

definition pipelineCallback :: "string \<Rightarrow> thrown \<Rightarrow> log_entry list" where
  "pipelineCallback nm err =
     (case err of
        ErrorObject m st \<Rightarrow> [Entry ERROR (''Stream error for '' @ nm @ '': '' @ m) None]
      | ThrownNull \<Rightarrow> []
      | ThrownUndefined \<Rightarrow> []
      | ThrownString s \<Rightarrow> [Entry ERROR (''Stream error for '' @ nm @ '': '' @ s) None]
      | ThrownOther j t \<Rightarrow>
          [Entry ERROR (''Stream error for '' @ nm @ '': '' @
             (case j of Some s \<Rightarrow> s | None \<Rightarrow> ''[unserializable error]'')) None]
      | ThrownUnprintable j t \<Rightarrow>
          [Entry ERROR (''Stream error for '' @ nm @ '': '' @
             (case j of Some s \<Rightarrow> s | None \<Rightarrow> ''[unserializable error]'')) None])"

text \<open>The \<^verbatim>\<open>for await\<close> loop over what the stream delivers.\<close>

fun consume ::
  "repository \<Rightarrow> string \<Rightarrow> (jsval \<Rightarrow> thrown + jsval) \<Rightarrow> ingest_state \<Rightarrow> stream_event list
     \<Rightarrow> event list \<times> thrown option \<times> ingest_state" where
  "consume repo nm mapFn st [] = ([], None, st)"
| "consume repo nm mapFn st (PipelineCallback err # rest) =
     (let (evs, r) = consume repo nm mapFn st rest
      in (map Logged (pipelineCallback nm err) @ evs, r))"
| "consume repo nm mapFn st (Element v # rest) =
     (case loopBody repo mapFn st v of
        (evs, Some e, st') \<Rightarrow> (evs, Some e, st')
      | (evs, None, st') \<Rightarrow>
          (let (evs', r) = consume repo nm mapFn st' rest in (evs @ evs', r)))"

text \<open>The result of one \<^verbatim>\<open>ingestSource\<close> call: its events, the error it rejects with
  (if any) and its local state when it is left.\<close>

record source_run =
  trace :: "event list"
  outcome :: "thrown option"
  exit_state :: ingest_state

text \<open>The two messages of \<^verbatim>\<open>ingestSource\<close>; the second one starts with U+2705, here in UTF-8.\<close>

definition checkmark :: string where
  "checkmark = [char_of (226::nat), char_of (156::nat), char_of (133::nat)]"

definition starting_entry :: "string \<Rightarrow> event" where
  "starting_entry nm = Logged (Entry LOG (''Starting ingestion for '' @ nm) None)"

definition finished_entry :: "string \<Rightarrow> event" where
  "finished_entry nm = Logged (Entry LOG (checkmark @ '' Finished ingestion for '' @ nm) None)"

text \<open>Lines 97 to 105: the trailing batch, the drain, the end of the byte stream.\<close>

definition finish :: "repository \<Rightarrow> string \<Rightarrow> response \<Rightarrow> ingest_state \<Rightarrow> source_run" where
  "finish repo nm resp st =
     (let (evs1, st1) = (if length (batch st) > 0 then submit repo (length (batch st)) st
                         else ([], st));
          (evs2, err, pending) = flushPending (pendingSaves st1);
          st2 = st1\<lparr>pendingSaves := pending\<rparr>
      in case err of
           Some e \<Rightarrow> \<lparr>trace = evs1 @ evs2, outcome = Some e, exit_state = st2\<rparr>
         | None \<Rightarrow>
             (case finished resp of
                Some e \<Rightarrow> \<lparr>trace = evs1 @ evs2, outcome = Some e, exit_state = st2\<rparr>
              | None \<Rightarrow>
                  \<lparr>trace = evs1 @ evs2 @ [finished_entry nm],
                   outcome = None, exit_state = st2\<rparr>))"

definition ingestSource :: "environment \<Rightarrow> nat \<Rightarrow> IngestionSource \<Rightarrow> source_run" where
  "ingestSource env k src =
     (let start = [starting_entry (name src)];
          st0 = \<lparr>batch = [], pendingSaves = [], saveCalls = k\<rparr>
      in case getStream env (url src) of
           Inl e \<Rightarrow> \<lparr>trace = start, outcome = Some e, exit_state = st0\<rparr>
         | Inr resp \<Rightarrow>
             (case consume (saveAll env) (name src) (mapper src) st0 (delivered resp) of
                (evs, Some e, st) \<Rightarrow> \<lparr>trace = start @ evs, outcome = Some e, exit_state = st\<rparr>
              | (evs, None, st) \<Rightarrow>
                  (case ended resp of
                     Some e \<Rightarrow> \<lparr>trace = start @ evs, outcome = Some e, exit_state = st\<rparr>
                   | None \<Rightarrow>
                       (let r = finish (saveAll env) (name src) resp st
                        in r\<lparr>trace := start @ evs @ trace r\<rparr>))))"

subsection \<open>registerSource and ingestAll\<close>

record IngestionService =
  sources :: "IngestionSource list"

definition registerSource :: "IngestionService \<Rightarrow> IngestionSource \<Rightarrow> IngestionService" where
  "registerSource svc source = svc\<lparr>sources := sources svc @ [source]\<rparr>"

text \<open>
  The \<^verbatim>\<open>catch\<close> clause of \<^verbatim>\<open>ingestAll\<close>: the entry it logs, or what it throws when
  \<^verbatim>\<open>String(error)\<close> throws; then nothing is logged and the error leaves \<^verbatim>\<open>ingestAll\<close>.
\<close>

definition ingestion_failure :: "string \<Rightarrow> thrown \<Rightarrow> thrown + log_entry" where
  "ingestion_failure nm error =
     (case error of
        ErrorObject m st \<Rightarrow> Inr (Entry ERROR (''Failed ingestion for '' @ nm) st)
      | _ \<Rightarrow>
          (case String_of error of
             Inl t \<Rightarrow> Inl t
           | Inr s \<Rightarrow> Inr (Entry ERROR (''Failed ingestion for '' @ nm @ '': '' @ s) None)))"

definition ingest_catch :: "string \<Rightarrow> thrown \<Rightarrow> event list \<times> thrown option" where
  "ingest_catch nm error =
     (case ingestion_failure nm error of
        Inl t \<Rightarrow> ([], Some t)
      | Inr entry \<Rightarrow> ([Logged entry], None))"

text \<open>
  \<^verbatim>\<open>try { body } catch (error) { handler }\<close> on the events and the error of the body.
\<close>

definition try_catch ::
  "event list \<times> thrown option \<Rightarrow> (thrown \<Rightarrow> event list \<times> thrown option)
     \<Rightarrow> event list \<times> thrown option" where
  "try_catch body handler =
     (case snd body of
        None \<Rightarrow> body
      | Some e \<Rightarrow> (let (evs, r) = handler e in (fst body @ evs, r)))"

text \<open>The loop of \<^verbatim>\<open>ingestAll\<close> from the \<open>k\<close>-th \<^verbatim>\<open>saveBatch\<close> call on.\<close>

fun ingestEach ::
  "environment \<Rightarrow> nat \<Rightarrow> IngestionSource list \<Rightarrow> event list \<times> thrown option" where
  "ingestEach env k [] = ([], None)"
| "ingestEach env k (source # rest) =
     (let r = ingestSource env k source
      in case try_catch (trace r, outcome r) (ingest_catch (name source)) of
           (evs, Some e) \<Rightarrow> (evs, Some e)
         | (evs, None) \<Rightarrow>
             (let (evs', res) = ingestEach env (saveCalls (exit_state r)) rest
              in (evs @ evs', res)))"

definition ingestAll :: "environment \<Rightarrow> IngestionService \<Rightarrow> event list \<times> thrown option" where
  "ingestAll env svc = ingestEach env 0 (sources svc)"

subsection \<open>Observations on a run\<close>

text \<open>The batches handed to \<^verbatim>\<open>saveBatch\<close>, in the order of the calls.\<close>

fun submitted :: "event list \<Rightarrow> jsval list list" where
  "submitted [] = []"
| "submitted (SaveBatch k b # evs) = b # submitted evs"
| "submitted (Logged e # evs) = submitted evs"
| "submitted (AwaitAllSettled ks # evs) = submitted evs"

text \<open>
  The non-skip outputs of the mapper, in stream order: of every element the mapper is
  invoked on, up to the first one it raises on.
\<close>

fun outputs :: "(jsval \<Rightarrow> thrown + jsval) \<Rightarrow> stream_event list \<Rightarrow> jsval list" where
  "outputs mapFn [] = []"
| "outputs mapFn (PipelineCallback err # rest) = outputs mapFn rest"
| "outputs mapFn (Element v # rest) =
     (case mapFn v of
        Inl e \<Rightarrow> []
      | Inr mapped \<Rightarrow> (if truthy mapped then [mapped] else []) @ outputs mapFn rest)"

text \<open>The mapper returns (a record or a skip) on the element delivered.\<close>

fun mapper_returns :: "(jsval \<Rightarrow> thrown + jsval) \<Rightarrow> stream_event \<Rightarrow> bool" where
  "mapper_returns mapFn (Element v) = (case mapFn v of Inl e \<Rightarrow> False | Inr mapped \<Rightarrow> True)"
| "mapper_returns mapFn (PipelineCallback err) = True"

text \<open>The non-skip outputs of a source (none when its stream does not open).\<close>

definition source_outputs :: "environment \<Rightarrow> IngestionSource \<Rightarrow> jsval list" where
  "source_outputs env src =
     (case getStream env (url src) of
        Inl e \<Rightarrow> []
      | Inr resp \<Rightarrow> outputs (mapper src) (delivered resp))"

text \<open>
  The pull loop runs to its end: the stream opens, the mapper raises on no delivered
  element and the iterator completes.
\<close>

definition pull_loop_completes :: "environment \<Rightarrow> IngestionSource \<Rightarrow> bool" where
  "pull_loop_completes env src =
     (case getStream env (url src) of
        Inl e \<Rightarrow> False
      | Inr resp \<Rightarrow> list_all (mapper_returns (mapper src)) (delivered resp) \<and> ended resp = None)"

text \<open>
  The partition of a sequence into consecutive groups of \<open>n\<close>, the last one holding what
  remains.
\<close>

function chunks :: "nat \<Rightarrow> 'a list \<Rightarrow> 'a list list" where
  "chunks n xs = (if n = 0 \<or> xs = [] then [] else take n xs # chunks n (drop n xs))"
  by pat_completeness auto
termination
  by (relation "measure (\<lambda>(n, xs). length xs)") auto

declare chunks.simps [simp del]

text \<open>The \<^verbatim>\<open>saveBatch\<close> calls of a run: the number of the call and its batch.\<close>

fun writes :: "event list \<Rightarrow> (nat \<times> jsval list) list" where
  "writes [] = []"
| "writes (SaveBatch k b # evs) = (k, b) # writes evs"
| "writes (Logged e # evs) = writes evs"
| "writes (AwaitAllSettled ks # evs) = writes evs"

text \<open>
  The calls that reach \<^verbatim>\<open>repository.saveAll\<close>: \<^verbatim>\<open>saveBatch\<close> returns at once on an
  empty batch.
\<close>

definition saveAll_calls :: "event list \<Rightarrow> (nat \<times> jsval list) list" where
  "saveAll_calls tr = filter (\<lambda>(k, b). length b \<noteq> 0) (writes tr)"

text \<open>What the continuations of the \<^verbatim>\<open>saveBatch\<close> calls of a run log, call by call.\<close>

definition write_log :: "repository \<Rightarrow> event list \<Rightarrow> log_entry list" where
  "write_log repo tr = concat (map (\<lambda>(k, b). fst (saveBatch repo k b)) (writes tr))"

text \<open>
  The writes registered with the limiter after the events of a run, starting from the
  registry \<open>pend\<close>: submitted and not yet awaited.
\<close>

fun registered :: "nat list \<Rightarrow> event list \<Rightarrow> nat list" where
  "registered pend [] = pend"
| "registered pend (SaveBatch k b # evs) = registered (pend @ [k]) evs"
| "registered pend (AwaitAllSettled ks # evs) = registered (filter (\<lambda>p. p \<notin> set ks) pend) evs"
| "registered pend (Logged e # evs) = registered pend evs"

text \<open>
  The discipline of the limiter, checked along a run from the registry \<open>pend\<close> and the call
  counter \<open>n\<close>: calls are numbered in order and made below the ceiling, a call that reaches
  the ceiling is followed at once by an await, and an await is on the whole registry,
  which is full unless no call follows.
\<close>

fun limited :: "nat list \<Rightarrow> nat \<Rightarrow> event list \<Rightarrow> bool" where
  "limited pend n [] = True"
| "limited pend n (Logged e # evs) = limited pend n evs"
| "limited pend n (SaveBatch k b # evs) =
     (k = n \<and> length pend < MAX_CONCURRENT_BATCHES
      \<and> (if MAX_CONCURRENT_BATCHES \<le> Suc (length pend)
         then (case evs of AwaitAllSettled ks # evs' \<Rightarrow> True | _ \<Rightarrow> False) else True)
      \<and> limited (pend @ [k]) (Suc n) evs)"
| "limited pend n (AwaitAllSettled ks # evs) =
     (ks = pend \<and> (length ks = MAX_CONCURRENT_BATCHES \<or> submitted evs = [])
      \<and> limited [] n evs)"

text \<open>The registered writes that have not settled yet.\<close>

definition unresolved :: "nat set \<Rightarrow> nat list \<Rightarrow> nat list" where
  "unresolved settled ks = filter (\<lambda>k. k \<notin> settled) ks"

text \<open>
  A source that raises nowhere: its pull loop runs to its end and the byte stream
  finishes without error.
\<close>

definition source_healthy :: "environment \<Rightarrow> IngestionSource \<Rightarrow> bool" where
  "source_healthy env src =
     (pull_loop_completes env src
      \<and> (case getStream env (url src) of Inl e \<Rightarrow> False | Inr resp \<Rightarrow> finished resp = None))"

subsection \<open>Example inputs\<close>

text \<open>A mapper that raises on \<^verbatim>\<open>null\<close> and returns every other element as it is.\<close>

definition failing_mapper :: "jsval \<Rightarrow> thrown + jsval" where
  "failing_mapper v = (if v = JNull then Inl (ErrorObject ''unmappable'' None) else Inr v)"

text \<open>
  A stream that delivers the given events and ends without error, and an environment
  that serves one stream for every URL and accepts every write.
\<close>

definition stream_of :: "stream_event list \<Rightarrow> response" where
  "stream_of evs = \<lparr>delivered = evs, ended = None, finished = None\<rparr>"

definition env_of :: "response \<Rightarrow> environment" where
  "env_of resp = \<lparr>getStream = (\<lambda>u. Inr resp), saveAll = (\<lambda>k b. Resolves)\<rparr>"

definition source_A :: IngestionSource where
  "source_A = \<lparr>name = ''A'', url = ''http://a'', mapper = failing_mapper\<rparr>"

text \<open>A source that maps every element to itself.\<close>

definition source_B :: IngestionSource where
  "source_B = \<lparr>name = ''B'', url = ''http://b'', mapper = Inr\<rparr>"

text \<open>
  The value \<^verbatim>\<open>Object.create(null)\<close>: \<^verbatim>\<open>JSON.stringify\<close> gives \<^verbatim>\<open>{}\<close>, \<^verbatim>\<open>String\<close> throws a
  \<^verbatim>\<open>TypeError\<close>.
\<close>

definition conversion_error :: thrown where
  "conversion_error = ErrorObject ''Cannot convert object to primitive value'' None"

definition bare_object :: thrown where
  "bare_object = ThrownUnprintable (Some ''{}'') conversion_error"

text \<open>A repository that rejects every write with that value, and one that throws it.\<close>

definition rejecting_bare :: repository where
  "rejecting_bare k b = Rejects bare_object"

definition throwing_bare :: repository where
  "throwing_bare k b = ThrowsSync bare_object"

text \<open>A source whose mapper throws that value on every element.\<close>

definition source_C :: IngestionSource where
  "source_C = \<lparr>name = ''C'', url = ''http://c'', mapper = (\<lambda>v. Inl bare_object)\<rparr>"

text \<open>
  A stream that delivers one element and then fails: the \<^verbatim>\<open>pipeline\<close> callback fires with
  the error and the iterator raises it.
\<close>

definition broken_stream :: response where
  "broken_stream =
     \<lparr>delivered = [Element (JObject 1), PipelineCallback (ErrorObject ''socket hang up'' None)],
      ended = Some (ErrorObject ''socket hang up'' None),
      finished = Some (ErrorObject ''socket hang up'' None)\<rparr>"

section \<open>Properties\<close>

subsection \<open>The loop body and the loop\<close>

lemma submitted_entries [simp]:
  "submitted (starting_entry nm # evs) = submitted evs"
  "submitted (finished_entry nm # evs) = submitted evs"
  by (simp_all add: starting_entry_def finished_entry_def)

lemma writes_entries [simp]:
  "writes (starting_entry nm # evs) = writes evs"
  "writes (finished_entry nm # evs) = writes evs"
  by (simp_all add: starting_entry_def finished_entry_def)

lemma registered_entries [simp]:
  "registered pend (starting_entry nm # evs) = registered pend evs"
  "registered pend (finished_entry nm # evs) = registered pend evs"
  by (simp_all add: starting_entry_def finished_entry_def)

lemma limited_entries [simp]:
  "limited pend n (starting_entry nm # evs) = limited pend n evs"
  "limited pend n (finished_entry nm # evs) = limited pend n evs"
  by (simp_all add: starting_entry_def finished_entry_def)

lemma submitted_append: "submitted (xs @ ys) = submitted xs @ submitted ys"
  by (induction xs rule: submitted.induct) simp_all

lemma flushPending_eq: "flushPending pending = ([AwaitAllSettled (map fst pending)], None, [])"
  by (simp add: flushPending_def allSettled_def)

lemma submit_eq:
  "submit repo n st =
     ([SaveBatch (saveCalls st) (take n (batch st))],
      st\<lparr>batch := drop n (batch st),
         pendingSaves := pendingSaves st
           @ [(saveCalls st, snd (saveBatch repo (saveCalls st) (take n (batch st))))],
         saveCalls := Suc (saveCalls st)\<rparr>)"
  by (simp add: submit_def Let_def)

lemma loopBody_cases [consumes 1, case_names throw skip push submit flush]:
  assumes "length (batch st) < BATCH_SIZE"
  obtains e where "mapFn v = Inl e" "loopBody repo mapFn st v = ([], Some e, st)"
  | m where "mapFn v = Inr m" "\<not> truthy m" "loopBody repo mapFn st v = ([], None, st)"
  | m where "mapFn v = Inr m" "truthy m" "Suc (length (batch st)) < BATCH_SIZE"
      "loopBody repo mapFn st v = ([], None, st\<lparr>batch := batch st @ [m]\<rparr>)"
  | m where "mapFn v = Inr m" "truthy m" "Suc (length (batch st)) = BATCH_SIZE"
      "Suc (length (pendingSaves st)) < MAX_CONCURRENT_BATCHES"
      "loopBody repo mapFn st v =
         ([SaveBatch (saveCalls st) (batch st @ [m])], None,
          st\<lparr>batch := [], pendingSaves := pendingSaves st
               @ [(saveCalls st, snd (saveBatch repo (saveCalls st) (batch st @ [m])))],
             saveCalls := Suc (saveCalls st)\<rparr>)"
  | m where "mapFn v = Inr m" "truthy m" "Suc (length (batch st)) = BATCH_SIZE"
      "MAX_CONCURRENT_BATCHES \<le> Suc (length (pendingSaves st))"
      "loopBody repo mapFn st v =
         ([SaveBatch (saveCalls st) (batch st @ [m]),
           AwaitAllSettled (map fst (pendingSaves st) @ [saveCalls st])], None,
          st\<lparr>batch := [], pendingSaves := [], saveCalls := Suc (saveCalls st)\<rparr>)"
proof (cases "mapFn v")
  case (Inl e)
  then have "loopBody repo mapFn st v = ([], Some e, st)" by (simp add: loopBody_def)
  with Inl show ?thesis using that(1) by blast
next
  case (Inr m)
  show ?thesis
  proof (cases "truthy m")
    case False
    with Inr have "loopBody repo mapFn st v = ([], None, st)" by (simp add: loopBody_def)
    with Inr False show ?thesis using that(2) by blast
  next
    case True
    show ?thesis
    proof (cases "Suc (length (batch st)) < BATCH_SIZE")
      case small: True
      with Inr True have "loopBody repo mapFn st v = ([], None, st\<lparr>batch := batch st @ [m]\<rparr>)"
        by (simp add: loopBody_def Let_def)
      with Inr True small show ?thesis using that(3) by blast
    next
      case False
      with assms have full: "Suc (length (batch st)) = BATCH_SIZE" by simp
      show ?thesis
      proof (cases "Suc (length (pendingSaves st)) < MAX_CONCURRENT_BATCHES")
        case below: True
        with Inr True full have "loopBody repo mapFn st v =
         ([SaveBatch (saveCalls st) (batch st @ [m])], None,
          st\<lparr>batch := [], pendingSaves := pendingSaves st
               @ [(saveCalls st, snd (saveBatch repo (saveCalls st) (batch st @ [m])))],
             saveCalls := Suc (saveCalls st)\<rparr>)"
          by (simp add: loopBody_def Let_def submit_eq)
        with Inr True full below show ?thesis using that(4) by blast
      next
        case False
        then have reach: "MAX_CONCURRENT_BATCHES \<le> Suc (length (pendingSaves st))" by simp
        with Inr True full have "loopBody repo mapFn st v =
         ([SaveBatch (saveCalls st) (batch st @ [m]),
           AwaitAllSettled (map fst (pendingSaves st) @ [saveCalls st])], None,
          st\<lparr>batch := [], pendingSaves := [], saveCalls := Suc (saveCalls st)\<rparr>)"
          by (simp add: loopBody_def Let_def submit_eq flushPending_eq)
        with Inr True full reach show ?thesis using that(5) by blast
      qed
    qed
  qed
qed

lemma chunks_Nil [simp]: "chunks n [] = []"
  by (simp add: chunks.simps)

lemma chunks_full: "length b = n \<Longrightarrow> 0 < n \<Longrightarrow> chunks n (b @ ys) = b # chunks n ys"
  by (subst chunks.simps) auto

lemma chunks_short: "xs \<noteq> [] \<Longrightarrow> length xs \<le> n \<Longrightarrow> chunks n xs = [xs]"
  by (subst chunks.simps) (cases xs; auto)

lemma chunks_concat:
  "\<forall>b\<in>set S. length b = n \<Longrightarrow> 0 < n \<Longrightarrow> length r < n
     \<Longrightarrow> chunks n (concat S @ r) = S @ (if r = [] then [] else [r])"
proof (induction S)
  case Nil
  then show ?case by (simp add: chunks_short)
next
  case (Cons b S)
  then show ?case by (simp add: chunks_full)
qed

lemma length_concat_full: "\<forall>b\<in>set S. length b = n \<Longrightarrow> length (concat S) = length S * n"
  by (induction S) simp_all

lemma consume_induct [consumes 2, case_names Nil Callback Throw Skip Push Submit Flush]:
  assumes "length (batch st) < BATCH_SIZE" and "consume repo nm f st evs = (tr, err, st')"
    and "\<And>st. length (batch st) < BATCH_SIZE \<Longrightarrow> P st [] [] None st"
    and "\<And>st e evs tr err st'. length (batch st) < BATCH_SIZE \<Longrightarrow> P st evs tr err st'
           \<Longrightarrow> P st (PipelineCallback e # evs) (map Logged (pipelineCallback nm e) @ tr) err st'"
    and "\<And>st v e evs. length (batch st) < BATCH_SIZE \<Longrightarrow> f v = Inl e
           \<Longrightarrow> P st (Element v # evs) [] (Some e) st"
    and "\<And>st v m evs tr err st'. length (batch st) < BATCH_SIZE \<Longrightarrow> f v = Inr m
           \<Longrightarrow> \<not> truthy m \<Longrightarrow> P st evs tr err st'
           \<Longrightarrow> P st (Element v # evs) tr err st'"
    and "\<And>st v m evs tr err st'. f v = Inr m \<Longrightarrow> truthy m
           \<Longrightarrow> Suc (length (batch st)) < BATCH_SIZE
           \<Longrightarrow> P (st\<lparr>batch := batch st @ [m]\<rparr>) evs tr err st'
           \<Longrightarrow> P st (Element v # evs) tr err st'"
    and "\<And>st v m evs tr err st'. f v = Inr m \<Longrightarrow> truthy m
           \<Longrightarrow> Suc (length (batch st)) = BATCH_SIZE
           \<Longrightarrow> Suc (length (pendingSaves st)) < MAX_CONCURRENT_BATCHES
           \<Longrightarrow> P (st\<lparr>batch := [],
                     pendingSaves := pendingSaves st
               @ [(saveCalls st, snd (saveBatch repo (saveCalls st) (batch st @ [m])))],
                     saveCalls := Suc (saveCalls st)\<rparr>) evs tr err st'
           \<Longrightarrow> P st (Element v # evs) (SaveBatch (saveCalls st) (batch st @ [m]) # tr) err st'"
    and "\<And>st v m evs tr err st'. f v = Inr m \<Longrightarrow> truthy m
           \<Longrightarrow> Suc (length (batch st)) = BATCH_SIZE
           \<Longrightarrow> MAX_CONCURRENT_BATCHES \<le> Suc (length (pendingSaves st))
           \<Longrightarrow> P (st\<lparr>batch := [], pendingSaves := [], saveCalls := Suc (saveCalls st)\<rparr>)
                 evs tr err st'
           \<Longrightarrow> P st (Element v # evs)
                 (SaveBatch (saveCalls st) (batch st @ [m])
                  # AwaitAllSettled (map fst (pendingSaves st) @ [saveCalls st]) # tr) err st'"
  shows "P st evs tr err st'"
  using assms(1,2)
proof (induction evs arbitrary: st tr err st')
  case Nil
  then show ?case using assms(3) by simp
next
  case (Cons ev evs)
  show ?case
  proof (cases ev)
    case (PipelineCallback e)
    obtain tr1 r where c: "consume repo nm f st evs = (tr1, r)"
      by (cases "consume repo nm f st evs")
    with Cons.prems PipelineCallback
    have tr: "tr = map Logged (pipelineCallback nm e) @ tr1" and r: "r = (err, st')" by auto
    from Cons.IH [OF Cons.prems(1)] c r have "P st evs tr1 err st'" by simp
    with tr PipelineCallback Cons.prems(1) show ?thesis using assms(4) by simp
  next
    case (Element v)
    from Cons.prems(1) show ?thesis
    proof (cases rule: loopBody_cases [where mapFn = f and v = v and repo = repo])
      case (throw e)
      with Cons.prems Element have "tr = []" "err = Some e" "st' = st" by auto
      with throw Element Cons.prems(1) show ?thesis using assms(5) by simp
    next
      case (skip m)
      obtain tr1 r where c: "consume repo nm f st evs = (tr1, r)"
        by (cases "consume repo nm f st evs")
      with Cons.prems Element skip have "tr = tr1" "r = (err, st')" by auto
      with Cons.IH [OF Cons.prems(1)] c have "P st evs tr err st'" by simp
      with skip Element Cons.prems(1) show ?thesis using assms(6) by simp
    next
      case (push m)
      let ?st1 = "st\<lparr>batch := batch st @ [m]\<rparr>"
      obtain tr1 r where c: "consume repo nm f ?st1 evs = (tr1, r)"
        by (cases "consume repo nm f ?st1 evs")
      with Cons.prems Element push have "tr = tr1" "r = (err, st')" by auto
      with Cons.IH [of ?st1 tr err st'] c push have "P ?st1 evs tr err st'" by simp
      with push Element show ?thesis using assms(7) by simp
    next
      case (submit m)
      let ?st1 = "st\<lparr>batch := [], pendingSaves := pendingSaves st
               @ [(saveCalls st, snd (saveBatch repo (saveCalls st) (batch st @ [m])))],
             saveCalls := Suc (saveCalls st)\<rparr>"
      obtain tr1 r where c: "consume repo nm f ?st1 evs = (tr1, r)"
        by (cases "consume repo nm f ?st1 evs")
      with Cons.prems Element submit
      have tr: "tr = SaveBatch (saveCalls st) (batch st @ [m]) # tr1" and "r = (err, st')" by auto
      with Cons.IH [of ?st1 tr1 err st'] c Cons.prems(1) have "P ?st1 evs tr1 err st'" by simp
      with submit Element tr show ?thesis using assms(8) by simp
    next
      case (flush m)
      let ?st1 = "st\<lparr>batch := [], pendingSaves := [], saveCalls := Suc (saveCalls st)\<rparr>"
      obtain tr1 r where c: "consume repo nm f ?st1 evs = (tr1, r)"
        by (cases "consume repo nm f ?st1 evs")
      with Cons.prems Element flush
      have tr: "tr = SaveBatch (saveCalls st) (batch st @ [m])
                 # AwaitAllSettled (map fst (pendingSaves st) @ [saveCalls st]) # tr1"
        and "r = (err, st')" by auto
      with Cons.IH [of ?st1 tr1 err st'] c Cons.prems(1) have "P ?st1 evs tr1 err st'" by simp
      with flush Element tr show ?thesis using assms(9) by simp
    qed
  qed
qed

lemma submitted_Logged [simp]: "submitted (map Logged es) = []"
  by (induction es) simp_all

lemma consume_batches:
  assumes "length (batch st) < BATCH_SIZE" and "consume repo nm f st evs = (tr, err, st')"
  shows "length (batch st') < BATCH_SIZE
       \<and> concat (submitted tr) @ batch st' = batch st @ outputs f evs
       \<and> (\<forall>b\<in>set (submitted tr). length b = BATCH_SIZE)"
  using assms
  by (induction rule: consume_induct) (simp_all add: submitted_append)

lemma consume_completes:
  assumes "length (batch st) < BATCH_SIZE" and "consume repo nm f st evs = (tr, err, st')"
  shows "(err = None) = list_all (mapper_returns f) evs"
  using assms
  by (induction rule: consume_induct) simp_all

lemma BATCH_SIZE_pos: "0 < BATCH_SIZE"
  by (simp add: BATCH_SIZE_def)

lemma finish_eq:
  "finish repo nm resp st =
     \<lparr>trace = (if batch st = [] then [] else [SaveBatch (saveCalls st) (batch st)])
              @ [AwaitAllSettled (map fst (pendingSaves st)
                                  @ (if batch st = [] then [] else [saveCalls st]))]
              @ (if finished resp = None then [finished_entry nm] else []),
      outcome = finished resp,
      exit_state = \<lparr>batch = [], pendingSaves = [],
                     saveCalls = (if batch st = [] then saveCalls st else Suc (saveCalls st))\<rparr>\<rparr>"
  by (cases st; cases "finished resp")
     (simp_all add: finish_def submit_eq flushPending_eq finished_entry_def Let_def)

lemma ingestSource_cases [case_names NoStream LoopFails IteratorFails Drained]:
  obtains e where "getStream env (url src) = Inl e"
      "ingestSource env k src =
         \<lparr>trace = [starting_entry (name src)], outcome = Some e,
          exit_state = \<lparr>batch = [], pendingSaves = [], saveCalls = k\<rparr>\<rparr>"
  | resp tr e st where "getStream env (url src) = Inr resp"
      "consume (saveAll env) (name src) (mapper src)
         \<lparr>batch = [], pendingSaves = [], saveCalls = k\<rparr> (delivered resp) = (tr, Some e, st)"
      "ingestSource env k src =
         \<lparr>trace = starting_entry (name src) # tr, outcome = Some e, exit_state = st\<rparr>"
  | resp tr e st where "getStream env (url src) = Inr resp"
      "consume (saveAll env) (name src) (mapper src)
         \<lparr>batch = [], pendingSaves = [], saveCalls = k\<rparr> (delivered resp) = (tr, None, st)"
      "ended resp = Some e"
      "ingestSource env k src =
         \<lparr>trace = starting_entry (name src) # tr, outcome = Some e, exit_state = st\<rparr>"
  | resp tr st where "getStream env (url src) = Inr resp"
      "consume (saveAll env) (name src) (mapper src)
         \<lparr>batch = [], pendingSaves = [], saveCalls = k\<rparr> (delivered resp) = (tr, None, st)"
      "ended resp = None"
      "ingestSource env k src =
         \<lparr>trace = starting_entry (name src) # tr
                  @ trace (finish (saveAll env) (name src) resp st),
          outcome = finished resp,
          exit_state = exit_state (finish (saveAll env) (name src) resp st)\<rparr>"
proof (cases "getStream env (url src)")
  case (Inl e)
  then show ?thesis using that(1) by (simp add: ingestSource_def starting_entry_def)
next
  case (Inr resp)
  obtain tr err st where c: "consume (saveAll env) (name src) (mapper src)
         \<lparr>batch = [], pendingSaves = [], saveCalls = k\<rparr> (delivered resp) = (tr, err, st)"
    by (cases "consume (saveAll env) (name src) (mapper src)
         \<lparr>batch = [], pendingSaves = [], saveCalls = k\<rparr> (delivered resp)")
  show ?thesis
  proof (cases err)
    case (Some e)
    with Inr c show ?thesis using that(2) by (simp add: ingestSource_def starting_entry_def)
  next
    case None
    show ?thesis
    proof (cases "ended resp")
      case (Some e)
      with Inr c None show ?thesis
        using that(3) by (simp add: ingestSource_def starting_entry_def)
    next
      case end_ok: None
      with Inr c None show ?thesis
        using that(4) [of resp tr st]
        by (simp add: ingestSource_def starting_entry_def Let_def finish_eq)
    qed
  qed
qed

lemma ingestSource_submitted:
  "\<exists>S r. (\<forall>b\<in>set S. length b = BATCH_SIZE) \<and> length r < BATCH_SIZE
        \<and> source_outputs env src = concat S @ r
        \<and> submitted (trace (ingestSource env k src))
            = (if pull_loop_completes env src then S @ (if r = [] then [] else [r]) else S)"
proof (cases rule: ingestSource_cases [where env = env and src = src and k = k])
  case (NoStream e)
  then show ?thesis
    by (simp add: source_outputs_def pull_loop_completes_def starting_entry_def BATCH_SIZE_pos)
next
  case (LoopFails resp tr e st)
  from consume_batches [OF _ LoopFails(2)] consume_completes [OF _ LoopFails(2)]
  have "length (batch st) < BATCH_SIZE" "concat (submitted tr) @ batch st = outputs (mapper src) (delivered resp)"
    "\<forall>b\<in>set (submitted tr). length b = BATCH_SIZE" "\<not> list_all (mapper_returns (mapper src)) (delivered resp)"
    by (simp_all add: BATCH_SIZE_pos)
  with LoopFails(1,3) show ?thesis
    by (intro exI [of _ "submitted tr"] exI [of _ "batch st"])
       (simp add: source_outputs_def pull_loop_completes_def starting_entry_def)
next
  case (IteratorFails resp tr e st)
  from consume_batches [OF _ IteratorFails(2)]
  have "length (batch st) < BATCH_SIZE" "concat (submitted tr) @ batch st = outputs (mapper src) (delivered resp)"
    "\<forall>b\<in>set (submitted tr). length b = BATCH_SIZE"
    by (simp_all add: BATCH_SIZE_pos)
  with IteratorFails(1,3,4) show ?thesis
    by (intro exI [of _ "submitted tr"] exI [of _ "batch st"])
       (simp add: source_outputs_def pull_loop_completes_def starting_entry_def)
next
  case (Drained resp tr st)
  from consume_batches [OF _ Drained(2)] consume_completes [OF _ Drained(2)]
  have "length (batch st) < BATCH_SIZE" "concat (submitted tr) @ batch st = outputs (mapper src) (delivered resp)"
    "\<forall>b\<in>set (submitted tr). length b = BATCH_SIZE" "list_all (mapper_returns (mapper src)) (delivered resp)"
    by (simp_all add: BATCH_SIZE_pos)
  with Drained(1,3,4) show ?thesis
    by (intro exI [of _ "submitted tr"] exI [of _ "batch st"])
       (simp add: source_outputs_def pull_loop_completes_def starting_entry_def finish_eq
          submitted_append finished_entry_def)
qed

lemma undersized_count:
  assumes "\<forall>b\<in>set S. length b = n" and "length r < n"
  shows "length (filter (\<lambda>b. length b < n) (S @ (if r = [] then [] else [r])))
           = (if length (concat S @ r) mod n = 0 then 0 else 1)"
proof -
  from assms(1) have "filter (\<lambda>b. length b < n) S = []" by (induction S) simp_all
  moreover from assms(1) have "length (concat S) = length S * n" by (rule length_concat_full)
  ultimately show ?thesis using assms(2) by simp
qed

subsection \<open>Batching\<close>

text \<open>
  Claim C1, as amended. In every run the batches handed to the writer are non-empty, at
  most \<^verbatim>\<open>BATCH_SIZE\<close> long and all but the last one full, and their concatenation is a
  prefix of the non-skip mapper outputs. When the pull loop runs to its end (the stream
  opens, the mapper raises on no element, the iterator completes), the concatenation is
  exactly the sequence of non-skip outputs, the batches are its consecutive groups of
  \<^verbatim>\<open>BATCH_SIZE\<close>, and exactly one batch is undersized when the number of outputs is not
  a multiple of \<^verbatim>\<open>BATCH_SIZE\<close> (none otherwise).
\<close>

theorem batches_partition_outputs:
  "(\<exists>rest. source_outputs env src = concat (submitted (trace (ingestSource env k src))) @ rest)
   \<and> (\<forall>b\<in>set (submitted (trace (ingestSource env k src))). b \<noteq> [] \<and> length b \<le> BATCH_SIZE)
   \<and> (\<forall>b\<in>set (butlast (submitted (trace (ingestSource env k src)))). length b = BATCH_SIZE)
   \<and> (pull_loop_completes env src \<longrightarrow>
        concat (submitted (trace (ingestSource env k src))) = source_outputs env src
      \<and> submitted (trace (ingestSource env k src)) = chunks BATCH_SIZE (source_outputs env src)
      \<and> length (filter (\<lambda>b. length b < BATCH_SIZE) (submitted (trace (ingestSource env k src))))
          = (if length (source_outputs env src) mod BATCH_SIZE = 0 then 0 else 1))"
proof -
  obtain S r where S: "\<forall>b\<in>set S. length b = BATCH_SIZE" and r: "length r < BATCH_SIZE"
    and outs: "source_outputs env src = concat S @ r"
    and sub: "submitted (trace (ingestSource env k src))
            = (if pull_loop_completes env src then S @ (if r = [] then [] else [r]) else S)"
    using ingestSource_submitted [of env src k] by blast
  have 1: "\<exists>rest. source_outputs env src = concat (submitted (trace (ingestSource env k src))) @ rest"
    using outs sub by auto
  have 2: "\<forall>b\<in>set (submitted (trace (ingestSource env k src))). b \<noteq> [] \<and> length b \<le> BATCH_SIZE"
    using S r sub BATCH_SIZE_pos by (auto split: if_splits)
  have 3: "\<forall>b\<in>set (butlast (submitted (trace (ingestSource env k src)))). length b = BATCH_SIZE"
    using S sub by (auto split: if_splits dest: in_set_butlastD)
  have 4: "concat (submitted (trace (ingestSource env k src))) = source_outputs env src"
    if "pull_loop_completes env src"
    using that outs sub by simp
  have 5: "submitted (trace (ingestSource env k src)) = chunks BATCH_SIZE (source_outputs env src)"
    if "pull_loop_completes env src"
    using that outs sub chunks_concat [OF S BATCH_SIZE_pos r] by simp
  have 6: "length (filter (\<lambda>b. length b < BATCH_SIZE) (submitted (trace (ingestSource env k src))))
          = (if length (source_outputs env src) mod BATCH_SIZE = 0 then 0 else 1)"
    if "pull_loop_completes env src"
    using that outs sub undersized_count [OF S r] by simp
  from 1 2 3 4 5 6 show ?thesis by blast
qed

lemma outputs_replicate:
  "f v = Inr m \<Longrightarrow> truthy m \<Longrightarrow> outputs f (replicate n (Element v)) = replicate n m"
  by (induction n) simp_all

lemma returns_replicate:
  "f v = Inr m \<Longrightarrow> list_all (mapper_returns f) (replicate n (Element v))"
  by (induction n) simp_all

text \<open>
  Claim C1 as stated fails for a mapper that raises: the record mapped from the first
  element is a non-skip output, the mapper raises on the second element, and no batch is
  ever handed to the writer.
\<close>

theorem buffered_records_lost_on_mapper_error:
  "source_outputs (env_of (stream_of [Element (JObject 1), Element JNull])) source_A = [JObject 1]
   \<and> submitted (trace (ingestSource (env_of (stream_of [Element (JObject 1), Element JNull])) 0 source_A)) = []"
  by (simp add: source_outputs_def env_of_def stream_of_def source_A_def failing_mapper_def
        ingestSource_def loopBody_def BATCH_SIZE_def Let_def)

text \<open>A stream of 5001 mappable elements: one full batch and one batch of a single record.\<close>

theorem batches_partition_outputs_witness:
  "pull_loop_completes (env_of (stream_of (replicate 5001 (Element (JObject 1))))) source_A
   \<and> source_outputs (env_of (stream_of (replicate 5001 (Element (JObject 1))))) source_A
       = replicate 5001 (JObject 1)
   \<and> submitted (trace (ingestSource (env_of (stream_of (replicate 5001 (Element (JObject 1))))) 0 source_A))
       = [replicate 5000 (JObject 1), [JObject 1]]"
proof -
  let ?env = "env_of (stream_of (replicate 5001 (Element (JObject 1))))"
  have m: "mapper source_A (JObject 1) = Inr (JObject 1)"
    by (simp add: source_A_def failing_mapper_def)
  have c: "pull_loop_completes ?env source_A"
    using returns_replicate [of "mapper source_A" "JObject 1", OF m]
    by (simp add: pull_loop_completes_def env_of_def stream_of_def)
  have o: "source_outputs ?env source_A = replicate 5001 (JObject 1)"
    using outputs_replicate [of "mapper source_A" "JObject 1", OF m]
    by (simp add: source_outputs_def env_of_def stream_of_def)
  have r: "replicate 5001 (JObject 1) = replicate 5000 (JObject 1) @ [JObject 1]"
    using replicate_add [of 5000 1 "JObject 1"] by simp
  have "chunks 5000 (replicate 5001 (JObject 1)) = [replicate 5000 (JObject 1), [JObject 1]]"
    unfolding r by (simp add: chunks_full chunks_short)
  with c o show ?thesis
    using batches_partition_outputs [of ?env source_A 0] by (simp add: BATCH_SIZE_def)
qed

lemma writes_append: "writes (xs @ ys) = writes xs @ writes ys"
  by (induction xs rule: writes.induct) simp_all

lemma writes_Logged [simp]: "writes (map Logged es) = []"
  by (induction es) simp_all

lemma submitted_writes: "submitted tr = map snd (writes tr)"
  by (induction tr rule: writes.induct) simp_all

lemma ingestSource_batches:
  "\<forall>b\<in>set (submitted (trace (ingestSource env k src))). b \<noteq> [] \<and> length b \<le> BATCH_SIZE"
proof -
  obtain S r where S: "\<forall>b\<in>set S. length b = BATCH_SIZE" and r: "length r < BATCH_SIZE"
    and sub: "submitted (trace (ingestSource env k src))
            = (if pull_loop_completes env src then S @ (if r = [] then [] else [r]) else S)"
    using ingestSource_submitted [of env src k] by blast
  then show ?thesis using BATCH_SIZE_pos by (auto split: if_splits)
qed

lemma ingestEach_batches:
  "\<forall>b\<in>set (submitted (fst (ingestEach env k ss))). b \<noteq> [] \<and> length b \<le> BATCH_SIZE"
proof (induction ss arbitrary: k)
  case Nil
  show ?case by simp
next
  case (Cons s ss)
  let ?r = "ingestSource env k s"
  obtain evs' res where rest: "ingestEach env (saveCalls (exit_state ?r)) ss = (evs', res)"
    by (cases "ingestEach env (saveCalls (exit_state ?r)) ss")
  with Cons [of "saveCalls (exit_state ?r)"]
  have later: "\<forall>b\<in>set (submitted evs'). b \<noteq> [] \<and> length b \<le> BATCH_SIZE" by simp
  note own = ingestSource_batches [of env k s]
  show ?case
  proof (cases "outcome ?r")
    case None
    with rest later own show ?thesis
      by (simp add: try_catch_def Let_def submitted_append ball_Un)
  next
    case (Some e)
    show ?thesis
    proof (cases "ingestion_failure (name s) e")
      case (Inl t)
      with Some own show ?thesis
        by (simp add: try_catch_def ingest_catch_def Let_def)
    next
      case (Inr entry)
      with Some rest later own show ?thesis
        by (simp add: try_catch_def ingest_catch_def Let_def submitted_append ball_Un)
    qed
  qed
qed

subsection \<open>Batches are never empty\<close>

text \<open>
  Claim C8. Every batch handed to \<^verbatim>\<open>saveBatch\<close>, by one source or by a whole run of
  \<^verbatim>\<open>ingestAll\<close>, the full batches of the loop and the trailing one alike, is non-empty
  and at most \<^verbatim>\<open>BATCH_SIZE\<close> long; so the guard of \<^verbatim>\<open>saveBatch\<close> never fires and
  \<^verbatim>\<open>saveAll\<close> is invoked with exactly these batches, never with an empty one.
\<close>

theorem saveAll_never_given_empty_batch:
  "(\<forall>b\<in>set (submitted (trace (ingestSource env k src))). b \<noteq> [] \<and> length b \<le> BATCH_SIZE)
   \<and> (\<forall>b\<in>set (submitted (fst (ingestAll env svc))). b \<noteq> [] \<and> length b \<le> BATCH_SIZE)
   \<and> saveAll_calls (fst (ingestAll env svc)) = writes (fst (ingestAll env svc))"
proof -
  have all: "\<forall>b\<in>set (submitted (fst (ingestAll env svc))). b \<noteq> [] \<and> length b \<le> BATCH_SIZE"
    unfolding ingestAll_def by (rule ingestEach_batches)
  then have "\<forall>w\<in>set (writes (fst (ingestAll env svc))). length (snd w) \<noteq> 0"
    by (simp add: submitted_writes)
  then have "saveAll_calls (fst (ingestAll env svc)) = writes (fst (ingestAll env svc))"
    unfolding saveAll_calls_def by (auto simp: filter_id_conv)
  with all ingestSource_batches show ?thesis by blast
qed

text \<open>A run of one source with two mappable elements and one that is skipped.\<close>

theorem saveAll_never_given_empty_batch_witness:
  "submitted (fst (ingestAll (env_of (stream_of [Element (JObject 1), Element JNull, Element (JObject 2)]))
                     \<lparr>sources = [source_B]\<rparr>)) = [[JObject 1, JObject 2]]
   \<and> [JObject 1, JObject 2] \<noteq> [] \<and> length [JObject 1, JObject (2::nat)] \<le> BATCH_SIZE"
  using saveAll_never_given_empty_batch
    [of "env_of (stream_of [Element (JObject 1), Element JNull, Element (JObject 2)])" 0 source_B
        "\<lparr>sources = [source_B]\<rparr>"]
  by (simp add: ingestAll_def env_of_def stream_of_def source_B_def ingestSource_def
        loopBody_def finish_def submit_def flushPending_def allSettled_def try_catch_def
        BATCH_SIZE_def Let_def)

subsection \<open>Skipped elements\<close>

text \<open>
  Claim C10. An element whose mapper output is falsy leaves the loop body without a
  change of state, an event or an error, so the loop goes on as if the element were not
  there; a truthy output is appended as it is to the buffered records, which make up
  the submitted batch and the buffer afterwards. Undefined, null, false, zero of either
  sign, NaN and the empty string are all falsy.
\<close>

theorem falsy_mapper_output_is_skipped:
  "(mapFn v = Inr mapped \<and> \<not> truthy mapped \<longrightarrow>
      loopBody repo mapFn st v = ([], None, st)
      \<and> consume repo nm mapFn st (Element v # rest) = consume repo nm mapFn st rest)
   \<and> (mapFn v = Inr mapped \<and> truthy mapped \<longrightarrow>
      fst (snd (loopBody repo mapFn st v)) = None
      \<and> concat (submitted (fst (loopBody repo mapFn st v)))
          @ batch (snd (snd (loopBody repo mapFn st v))) = batch st @ [mapped])
   \<and> \<not> truthy JUndefined \<and> \<not> truthy JNull \<and> \<not> truthy (JBool False)
   \<and> \<not> truthy (JNumber (JsFinite s 0 e)) \<and> \<not> truthy (JNumber JsNaN) \<and> \<not> truthy (JString [])"
proof -
  have skip: "loopBody repo mapFn st v = ([], None, st)"
    if "mapFn v = Inr mapped" "\<not> truthy mapped"
    using that by (simp add: loopBody_def)
  have loop: "consume repo nm mapFn st (Element v # rest) = consume repo nm mapFn st rest"
    if "mapFn v = Inr mapped" "\<not> truthy mapped"
    using skip [OF that] by (cases "consume repo nm mapFn st rest") simp
  have push: "fst (snd (loopBody repo mapFn st v)) = None
      \<and> concat (submitted (fst (loopBody repo mapFn st v)))
          @ batch (snd (snd (loopBody repo mapFn st v))) = batch st @ [mapped]"
    if "mapFn v = Inr mapped" "truthy mapped"
    using that
    by (simp add: loopBody_def Let_def submit_eq flushPending_eq del: take_append drop_append)
  from skip loop push show ?thesis by simp
qed

text \<open>The empty string is skipped, a non-empty string is pushed.\<close>

theorem falsy_mapper_output_is_skipped_witness:
  "loopBody (\<lambda>k b. Resolves) Inr \<lparr>batch = [JObject 1], pendingSaves = [], saveCalls = 0\<rparr> (JString [])
     = ([], None, \<lparr>batch = [JObject 1], pendingSaves = [], saveCalls = 0\<rparr>)
   \<and> loopBody (\<lambda>k b. Resolves) Inr \<lparr>batch = [JObject 1], pendingSaves = [], saveCalls = 0\<rparr>
        (JString ''x'')
     = ([], None, \<lparr>batch = [JObject 1, JString ''x''], pendingSaves = [], saveCalls = 0\<rparr>)"
  using falsy_mapper_output_is_skipped
      [of Inr "JString []" "JString []" "\<lambda>k b. Resolves"
          "\<lparr>batch = [JObject 1], pendingSaves = [], saveCalls = 0\<rparr>" "''B''" "[]" False 0]
  by (simp add: loopBody_def BATCH_SIZE_def Let_def)

subsection \<open>The limiter\<close>

lemma registered_append: "registered pend (xs @ ys) = registered (registered pend xs) ys"
  by (induction pend xs rule: registered.induct) simp_all

lemma registered_Logged [simp]: "registered pend (map Logged es) = pend"
  by (induction es) simp_all

lemma limited_Logged [simp]: "limited pend n (map Logged es @ evs) = limited pend n evs"
  by (induction es) simp_all

lemma filter_out_self [simp]: "filter (\<lambda>p. p \<notin> set ks) ks = []"
  by (induction ks) auto

lemma consume_limited:
  assumes "length (batch st) < BATCH_SIZE" and "consume repo nm f st evs = (tr, err, st')"
  shows "length (pendingSaves st) < MAX_CONCURRENT_BATCHES \<longrightarrow>
           length (pendingSaves st') < MAX_CONCURRENT_BATCHES
           \<and> registered (map fst (pendingSaves st)) tr = map fst (pendingSaves st')
           \<and> (\<forall>rest. limited (map fst (pendingSaves st')) (saveCalls st') rest
                \<longrightarrow> limited (map fst (pendingSaves st)) (saveCalls st) (tr @ rest))"
  using assms
proof (induction rule: consume_induct)
  case (Flush st v m evs tr err st')
  then show ?case by (auto simp: MAX_CONCURRENT_BATCHES_def)
qed (simp_all add: registered_append)

lemma consume_limited_from:
  assumes "length (batch st) < BATCH_SIZE" and "consume repo nm f st evs = (tr, err, st')"
    and "length (pendingSaves st) < MAX_CONCURRENT_BATCHES"
  shows "length (pendingSaves st') < MAX_CONCURRENT_BATCHES"
    and "registered (map fst (pendingSaves st)) tr = map fst (pendingSaves st')"
    and "limited (map fst (pendingSaves st')) (saveCalls st') rest
           \<Longrightarrow> limited (map fst (pendingSaves st)) (saveCalls st) (tr @ rest)"
  using consume_limited [OF assms(1,2)] assms(3) by blast+

lemma limited_prefix:
  "length pend \<le> MAX_CONCURRENT_BATCHES \<Longrightarrow> limited pend n (p @ q)
     \<Longrightarrow> length (registered pend p) \<le> MAX_CONCURRENT_BATCHES
         \<and> (\<exists>n'. limited (registered pend p) n' q)"
proof (induction pend p arbitrary: n rule: registered.induct)
  case (1 pend)
  then show ?case by auto
next
  case (2 pend k b evs)
  from 2(2,3) 2(1) [of "Suc n"] show ?case by auto
next
  case (3 pend ks evs)
  from 3(2,3) 3(1) [of n] show ?case by simp
next
  case (4 pend e evs)
  from 4(2,3) 4(1) [of n] show ?case by simp
qed

lemma limited_at_call:
  assumes "length pend \<le> MAX_CONCURRENT_BATCHES" and "limited pend n (p @ SaveBatch j b # q)"
  shows "length (registered pend p) < MAX_CONCURRENT_BATCHES
       \<and> (MAX_CONCURRENT_BATCHES \<le> Suc (length (registered pend p))
            \<longrightarrow> (\<exists>q'. q = AwaitAllSettled (registered pend p @ [j]) # q'))"
proof -
  from limited_prefix [OF assms] obtain n'
    where l: "limited (registered pend p) n' (SaveBatch j b # q)" by blast
  then have 1: "length (registered pend p) < MAX_CONCURRENT_BATCHES" by simp
  have "\<exists>q'. q = AwaitAllSettled (registered pend p @ [j]) # q'"
    if "MAX_CONCURRENT_BATCHES \<le> Suc (length (registered pend p))"
  proof (cases q)
    case Nil
    with l that show ?thesis by simp
  next
    case (Cons ev q')
    with l that show ?thesis by (cases ev) simp_all
  qed
  with 1 show ?thesis by blast
qed

lemma limited_at_await:
  assumes "length pend \<le> MAX_CONCURRENT_BATCHES" and "limited pend n (p @ AwaitAllSettled ks # q)"
  shows "ks = registered pend p \<and> registered pend (p @ [AwaitAllSettled ks]) = []"
proof -
  from limited_prefix [OF assms] obtain n'
    where "limited (registered pend p) n' (AwaitAllSettled ks # q)" by blast
  then show ?thesis by (simp add: registered_append)
qed

lemma finish_limited:
  assumes "length (pendingSaves st) < MAX_CONCURRENT_BATCHES"
  shows "limited (map fst (pendingSaves st)) (saveCalls st) (trace (finish repo nm resp st))
       \<and> registered (map fst (pendingSaves st)) (trace (finish repo nm resp st)) = []"
  using assms by (simp add: finish_eq finished_entry_def)

lemma MAX_CONCURRENT_BATCHES_pos: "0 < MAX_CONCURRENT_BATCHES"
  by (simp add: MAX_CONCURRENT_BATCHES_def)

lemma ingestSource_limited:
  "limited [] k (trace (ingestSource env k src))
   \<and> registered [] (trace (ingestSource env k src))
       = map fst (pendingSaves (exit_state (ingestSource env k src)))
   \<and> length (pendingSaves (exit_state (ingestSource env k src))) < MAX_CONCURRENT_BATCHES
   \<and> (pull_loop_completes env src \<longrightarrow> pendingSaves (exit_state (ingestSource env k src)) = [])"
proof -
  let ?st0 = "\<lparr>batch = [], pendingSaves = [], saveCalls = k\<rparr>"
  have b0: "length (batch ?st0) < BATCH_SIZE" by (simp add: BATCH_SIZE_pos)
  have p0: "length (pendingSaves ?st0) < MAX_CONCURRENT_BATCHES"
    by (simp add: MAX_CONCURRENT_BATCHES_pos)
  show ?thesis
  proof (cases rule: ingestSource_cases [where env = env and src = src and k = k])
    case (NoStream e)
    then show ?thesis
      by (simp add: starting_entry_def MAX_CONCURRENT_BATCHES_pos pull_loop_completes_def)
  next
    case (LoopFails resp tr e st)
    note c = consume_limited_from [OF b0 LoopFails(2) p0]
    from consume_completes [OF b0 LoopFails(2)]
    have "\<not> list_all (mapper_returns (mapper src)) (delivered resp)" by simp
    with LoopFails(1,3) c(1,2) c(3) [of "[]"] show ?thesis
      by (simp add: starting_entry_def pull_loop_completes_def)
  next
    case (IteratorFails resp tr e st)
    note c = consume_limited_from [OF b0 IteratorFails(2) p0]
    from IteratorFails(1,3,4) c(1,2) c(3) [of "[]"] show ?thesis
      by (simp add: starting_entry_def pull_loop_completes_def)
  next
    case (Drained resp tr st)
    note c = consume_limited_from [OF b0 Drained(2) p0]
    from finish_limited [OF c(1), of repo nm resp for repo nm]
      c(3) [of "trace (finish (saveAll env) (name src) resp st)"] c(1,2) Drained(4)
    show ?thesis
      by (simp add: starting_entry_def registered_append finish_eq MAX_CONCURRENT_BATCHES_pos)
  qed
qed

text \<open>
  Claim C4. At every point of the run of one source, the writes submitted and not yet
  awaited number at most \<^verbatim>\<open>MAX_CONCURRENT_BATCHES\<close>, and whenever \<^verbatim>\<open>saveBatch\<close> is called
  they number less than that.
\<close>

theorem pending_writes_stay_below_ceiling:
  "(\<forall>p q. trace (ingestSource env k src) = p @ q
       \<longrightarrow> length (registered [] p) \<le> MAX_CONCURRENT_BATCHES)
   \<and> (\<forall>p j b q. trace (ingestSource env k src) = p @ SaveBatch j b # q
       \<longrightarrow> length (registered [] p) < MAX_CONCURRENT_BATCHES)"
proof -
  have l: "limited [] k (trace (ingestSource env k src))"
    using ingestSource_limited by blast
  have 1: "length (registered [] p) \<le> MAX_CONCURRENT_BATCHES"
    if "trace (ingestSource env k src) = p @ q" for p q
    using limited_prefix [of "[]" k p q] l that by simp
  have 2: "length (registered [] p) < MAX_CONCURRENT_BATCHES"
    if "trace (ingestSource env k src) = p @ SaveBatch j b # q" for p j b q
    using limited_at_call [of "[]" k p j b q] l that by simp
  from 1 2 show ?thesis by blast
qed

lemma saveBatch_accepted [simp]: "snd (saveBatch (\<lambda>k b. Resolves) k b) = Fulfilled"
  by (simp add: saveBatch_def)

lemma consume_append:
  "consume repo nm f st (xs @ ys) =
     (case consume repo nm f st xs of
        (tr, Some e, st') \<Rightarrow> (tr, Some e, st')
      | (tr, None, st') \<Rightarrow>
          (case consume repo nm f st' ys of (tr', r) \<Rightarrow> (tr @ tr', r)))"
proof (induction xs arbitrary: st)
  case Nil
  show ?case by simp
next
  case (Cons x xs)
  show ?case
  proof (cases x)
    case (Element v)
    with Cons show ?thesis by (simp split: prod.splits option.splits)
  next
    case (PipelineCallback e)
    with Cons show ?thesis by (simp split: prod.splits option.splits)
  qed
qed

lemma consume_fill:
  assumes "f v = Inr m" and "truthy m"
  shows "length (batch st) + n < BATCH_SIZE
     \<Longrightarrow> consume repo nm f st (replicate n (Element v))
          = ([], None, st\<lparr>batch := batch st @ replicate n m\<rparr>)"
proof (induction n arbitrary: st)
  case 0
  show ?case by simp
next
  case (Suc n)
  from Suc.prems assms have "loopBody repo f st v = ([], None, st\<lparr>batch := batch st @ [m]\<rparr>)"
    by (simp add: loopBody_def Let_def)
  moreover from Suc.prems
  have "consume repo nm f (st\<lparr>batch := batch st @ [m]\<rparr>) (replicate n (Element v))
          = ([], None, st\<lparr>batch := batch st @ [m] @ replicate n m\<rparr>)"
    using Suc.IH [of "st\<lparr>batch := batch st @ [m]\<rparr>"] by simp
  ultimately show ?case by simp
qed

lemma consume_batch:
  assumes "f v = Inr m" and "truthy m" and "batch st = []"
  shows "consume repo nm f st (replicate BATCH_SIZE (Element v)) =
     (if MAX_CONCURRENT_BATCHES \<le> Suc (length (pendingSaves st))
      then ([SaveBatch (saveCalls st) (replicate BATCH_SIZE m),
             AwaitAllSettled (map fst (pendingSaves st) @ [saveCalls st])], None,
            st\<lparr>pendingSaves := [], saveCalls := Suc (saveCalls st)\<rparr>)
      else ([SaveBatch (saveCalls st) (replicate BATCH_SIZE m)], None,
            st\<lparr>pendingSaves := pendingSaves st
               @ [(saveCalls st, snd (saveBatch repo (saveCalls st) (replicate BATCH_SIZE m)))],
               saveCalls := Suc (saveCalls st)\<rparr>))"
proof -
  obtain n where n: "BATCH_SIZE = Suc n" using BATCH_SIZE_pos by (cases BATCH_SIZE) simp_all
  have split: "replicate BATCH_SIZE (Element v) = replicate n (Element v) @ [Element v]"
    and whole: "replicate n m @ [m] = replicate BATCH_SIZE m"
    by (simp_all add: n replicate_append_same)
  have fill: "consume repo nm f st (replicate n (Element v))
                = ([], None, st\<lparr>batch := replicate n m\<rparr>)"
    using consume_fill [where f = f and v = v and m = m and st = st and n = n
        and repo = repo and nm = nm] assms n by simp
  have "length (batch (st\<lparr>batch := replicate n m\<rparr>)) < BATCH_SIZE" by (simp add: n)
  then show ?thesis
  proof (cases rule: loopBody_cases [where mapFn = f and v = v and repo = repo])
    case (submit m')
    with assms(1,3) whole show ?thesis
      unfolding split consume_append fill by simp
  next
    case (flush m')
    with assms(1,3) whole show ?thesis
      unfolding split consume_append fill by simp
  qed (use assms n in simp_all)
qed

lemma three_batches_run:
  "ingestSource (env_of (stream_of (replicate 15000 (Element (JObject 0))))) 0 source_B =
     \<lparr>trace = [starting_entry ''B'',
               SaveBatch 0 (replicate 5000 (JObject 0)),
               SaveBatch 1 (replicate 5000 (JObject 0)),
               SaveBatch 2 (replicate 5000 (JObject 0)),
               AwaitAllSettled [0, 1, 2],
               AwaitAllSettled [],
               finished_entry ''B''],
      outcome = None,
      exit_state = \<lparr>batch = [], pendingSaves = [], saveCalls = 3\<rparr>\<rparr>"
proof -
  have split: "replicate 15000 (Element (JObject 0))
      = replicate BATCH_SIZE (Element (JObject 0))
        @ replicate BATCH_SIZE (Element (JObject 0))
        @ replicate BATCH_SIZE (Element (JObject 0))"
    using replicate_add [of 5000 10000 "Element (JObject 0)"]
      replicate_add [of 5000 5000 "Element (JObject 0)"]
    by (simp add: BATCH_SIZE_def)
  have one: "consume repo nm Inr st (replicate BATCH_SIZE (Element (JObject 0))) =
     (if MAX_CONCURRENT_BATCHES \<le> Suc (length (pendingSaves st))
      then ([SaveBatch (saveCalls st) (replicate BATCH_SIZE (JObject 0)),
             AwaitAllSettled (map fst (pendingSaves st) @ [saveCalls st])], None,
            st\<lparr>pendingSaves := [], saveCalls := Suc (saveCalls st)\<rparr>)
      else ([SaveBatch (saveCalls st) (replicate BATCH_SIZE (JObject 0))], None,
            st\<lparr>pendingSaves := pendingSaves st
               @ [(saveCalls st, snd (saveBatch repo (saveCalls st) (replicate BATCH_SIZE (JObject 0))))],
               saveCalls := Suc (saveCalls st)\<rparr>))"
    if "batch st = []" for repo nm and st :: ingest_state
    using consume_batch [where f = Inr and v = "JObject 0" and m = "JObject 0" and st = st] that
    by simp
  show ?thesis
    unfolding ingestSource_def env_of_def stream_of_def source_B_def
    by (simp add: split consume_append one finish_eq MAX_CONCURRENT_BATCHES_def
          starting_entry_def Let_def)
       (simp add: BATCH_SIZE_def)
qed

lemma aborted_run:
  "ingestSource (env_of (stream_of (replicate 5000 (Element (JObject 0)) @ [Element JNull])))
       0 source_A =
     \<lparr>trace = [starting_entry ''A'', SaveBatch 0 (replicate 5000 (JObject 0))],
      outcome = Some (ErrorObject ''unmappable'' None),
      exit_state = \<lparr>batch = [], pendingSaves = [(0, Fulfilled)], saveCalls = 1\<rparr>\<rparr>"
proof -
  have one: "consume repo nm failing_mapper st (replicate BATCH_SIZE (Element (JObject 0))) =
     (if MAX_CONCURRENT_BATCHES \<le> Suc (length (pendingSaves st))
      then ([SaveBatch (saveCalls st) (replicate BATCH_SIZE (JObject 0)),
             AwaitAllSettled (map fst (pendingSaves st) @ [saveCalls st])], None,
            st\<lparr>pendingSaves := [], saveCalls := Suc (saveCalls st)\<rparr>)
      else ([SaveBatch (saveCalls st) (replicate BATCH_SIZE (JObject 0))], None,
            st\<lparr>pendingSaves := pendingSaves st
               @ [(saveCalls st, snd (saveBatch repo (saveCalls st) (replicate BATCH_SIZE (JObject 0))))],
               saveCalls := Suc (saveCalls st)\<rparr>))"
    if "batch st = []" for repo nm and st :: ingest_state
    using consume_batch [where f = failing_mapper and v = "JObject 0" and m = "JObject 0"
        and st = st] that
    by (simp add: failing_mapper_def)
  have split: "replicate 5000 (Element (JObject 0)) = replicate BATCH_SIZE (Element (JObject 0))"
    by (simp add: BATCH_SIZE_def)
  show ?thesis
    unfolding ingestSource_def env_of_def stream_of_def source_A_def
    by (simp add: split consume_append one MAX_CONCURRENT_BATCHES_def
          starting_entry_def Let_def)
       (simp add: BATCH_SIZE_def loopBody_def failing_mapper_def)
qed

text \<open>Three full batches: the third call is made with two writes registered.\<close>

theorem pending_writes_stay_below_ceiling_witness:
  "trace (ingestSource (env_of (stream_of (replicate 15000 (Element (JObject 0))))) 0 source_B)
     = [starting_entry ''B'', SaveBatch 0 (replicate 5000 (JObject 0)),
        SaveBatch 1 (replicate 5000 (JObject 0))]
       @ SaveBatch 2 (replicate 5000 (JObject 0))
       # [AwaitAllSettled [0, 1, 2], AwaitAllSettled [], finished_entry ''B'']
   \<and> registered [] [starting_entry ''B'', SaveBatch 0 (replicate 5000 (JObject 0)),
                     SaveBatch 1 (replicate 5000 (JObject 0))] = [0, 1]
   \<and> length [0, 1 :: nat] < MAX_CONCURRENT_BATCHES"
proof -
  let ?p = "[starting_entry ''B'', SaveBatch 0 (replicate 5000 (JObject 0)),
             SaveBatch 1 (replicate 5000 (JObject 0))]"
  have t: "trace (ingestSource (env_of (stream_of (replicate 15000 (Element (JObject 0))))) 0 source_B)
     = ?p @ SaveBatch 2 (replicate 5000 (JObject 0))
          # [AwaitAllSettled [0, 1, 2], AwaitAllSettled [], finished_entry ''B'']"
    by (simp add: three_batches_run)
  have r: "registered [] ?p = [0, 1]" by (simp add: starting_entry_def)
  from pending_writes_stay_below_ceiling
    [of "env_of (stream_of (replicate 15000 (Element (JObject 0))))" 0 source_B] t
  have "length (registered [] ?p) < MAX_CONCURRENT_BATCHES" by blast
  with t r show ?thesis by simp
qed

lemma limited_fourth_call:
  "limited [m..<n] n (p @ SaveBatch j b # q) \<Longrightarrow> m \<le> n \<Longrightarrow> n < m + MAX_CONCURRENT_BATCHES
     \<Longrightarrow> m + MAX_CONCURRENT_BATCHES \<le> j
     \<Longrightarrow> AwaitAllSettled [m..<m + MAX_CONCURRENT_BATCHES] \<in> set p"
proof (induction p arbitrary: n)
  case Nil
  then show ?case by simp
next
  case (Cons ev p)
  show ?case
  proof (cases ev)
    case (Logged e)
    with Cons show ?thesis by simp
  next
    case (AwaitAllSettled ks)
    with Cons.prems show ?thesis by (auto simp: submitted_append)
  next
    case (SaveBatch k' b')
    with Cons.prems have k': "k' = n"
      and l: "limited [m..<Suc n] (Suc n) (p @ SaveBatch j b # q)"
      and ahead: "MAX_CONCURRENT_BATCHES \<le> Suc (n - m)
        \<Longrightarrow> (case p @ SaveBatch j b # q of AwaitAllSettled ks # evs' \<Rightarrow> True | _ \<Rightarrow> False)"
      by (auto split: if_splits)
    show ?thesis
    proof (cases "Suc n < m + MAX_CONCURRENT_BATCHES")
      case True
      with Cons.IH [OF l] Cons.prems show ?thesis by simp
    next
      case False
      with Cons.prems have full: "Suc n = m + MAX_CONCURRENT_BATCHES" by simp
      then have "MAX_CONCURRENT_BATCHES \<le> Suc (n - m)" by simp
      from ahead [OF this] obtain ks p' where p: "p = AwaitAllSettled ks # p'"
        by (cases p; cases "hd p") (auto split: event.splits)
      with l have "ks = [m..<Suc n]" by simp
      with p full show ?thesis by simp
    qed
  qed
qed

text \<open>
  Claim C2, as amended. Every await of the run is on all the writes registered at that
  point, and the registry is empty after it; a call that brings the registry to the
  ceiling is followed at once by such an await; the await resumes exactly when none of
  its writes is left unresolved, that is when all of them have settled, not as soon as
  their number drops below the ceiling. In particular, the first three writes of a source
  have all been awaited before its fourth call of \<^verbatim>\<open>saveBatch\<close>.
\<close>

theorem throttle_awaits_all_registered:
  "(\<forall>p ks q. trace (ingestSource env k src) = p @ AwaitAllSettled ks # q
       \<longrightarrow> ks = registered [] p \<and> registered [] (p @ [AwaitAllSettled ks]) = [])
   \<and> (\<forall>p j b q. trace (ingestSource env k src) = p @ SaveBatch j b # q
          \<and> MAX_CONCURRENT_BATCHES \<le> Suc (length (registered [] p))
       \<longrightarrow> (\<exists>q'. q = AwaitAllSettled (registered [] p @ [j]) # q'))
   \<and> (allSettled_resumes settled ks' \<longleftrightarrow> unresolved settled ks' = [])
   \<and> (\<forall>p b q. trace (ingestSource env k src) = p @ SaveBatch (k + 3) b # q
       \<longrightarrow> AwaitAllSettled [k, Suc k, Suc (Suc k)] \<in> set p)"
proof -
  have l: "limited [] k (trace (ingestSource env k src))"
    using ingestSource_limited by blast
  have 1: "ks = registered [] p \<and> registered [] (p @ [AwaitAllSettled ks]) = []"
    if "trace (ingestSource env k src) = p @ AwaitAllSettled ks # q" for p ks q
    using limited_at_await [of "[]" k p ks q] l that by auto
  have 2: "\<exists>q'. q = AwaitAllSettled (registered [] p @ [j]) # q'"
    if "trace (ingestSource env k src) = p @ SaveBatch j b # q"
      "MAX_CONCURRENT_BATCHES \<le> Suc (length (registered [] p))" for p j b q
    using limited_at_call [of "[]" k p j b q] l that by simp
  have 3: "allSettled_resumes settled ks' \<longleftrightarrow> unresolved settled ks' = []"
    by (auto simp: allSettled_resumes_def unresolved_def list_all_iff filter_empty_conv)
  have 4: "AwaitAllSettled [k, Suc k, Suc (Suc k)] \<in> set p"
    if "trace (ingestSource env k src) = p @ SaveBatch (k + 3) b # q" for p b q
  proof -
    have "[k..<k + MAX_CONCURRENT_BATCHES] = [k, Suc k, Suc (Suc k)]"
      by (simp add: MAX_CONCURRENT_BATCHES_def upt_rec)
    with limited_fourth_call [of k k p "k + 3" b q] l that show ?thesis
      by (simp add: MAX_CONCURRENT_BATCHES_def)
  qed
  from 1 2 3 4 show ?thesis by blast
qed

lemma four_batches_run:
  "ingestSource (env_of (stream_of (replicate 20000 (Element (JObject 0))))) 0 source_B =
     \<lparr>trace = [starting_entry ''B'',
               SaveBatch 0 (replicate 5000 (JObject 0)),
               SaveBatch 1 (replicate 5000 (JObject 0)),
               SaveBatch 2 (replicate 5000 (JObject 0)),
               AwaitAllSettled [0, 1, 2],
               SaveBatch 3 (replicate 5000 (JObject 0)),
               AwaitAllSettled [3],
               finished_entry ''B''],
      outcome = None,
      exit_state = \<lparr>batch = [], pendingSaves = [], saveCalls = 4\<rparr>\<rparr>"
proof -
  have split: "replicate 20000 (Element (JObject 0))
      = replicate BATCH_SIZE (Element (JObject 0))
        @ replicate BATCH_SIZE (Element (JObject 0))
        @ replicate BATCH_SIZE (Element (JObject 0))
        @ replicate BATCH_SIZE (Element (JObject 0))"
    using replicate_add [of 5000 15000 "Element (JObject 0)"]
      replicate_add [of 5000 10000 "Element (JObject 0)"]
      replicate_add [of 5000 5000 "Element (JObject 0)"]
    by (simp add: BATCH_SIZE_def)
  have one: "consume repo nm Inr st (replicate BATCH_SIZE (Element (JObject 0))) =
     (if MAX_CONCURRENT_BATCHES \<le> Suc (length (pendingSaves st))
      then ([SaveBatch (saveCalls st) (replicate BATCH_SIZE (JObject 0)),
             AwaitAllSettled (map fst (pendingSaves st) @ [saveCalls st])], None,
            st\<lparr>pendingSaves := [], saveCalls := Suc (saveCalls st)\<rparr>)
      else ([SaveBatch (saveCalls st) (replicate BATCH_SIZE (JObject 0))], None,
            st\<lparr>pendingSaves := pendingSaves st
               @ [(saveCalls st, snd (saveBatch repo (saveCalls st) (replicate BATCH_SIZE (JObject 0))))],
               saveCalls := Suc (saveCalls st)\<rparr>))"
    if "batch st = []" for repo nm and st :: ingest_state
    using consume_batch [where f = Inr and v = "JObject 0" and m = "JObject 0" and st = st] that
    by simp
  show ?thesis
    unfolding ingestSource_def env_of_def stream_of_def source_B_def
    by (simp add: split consume_append one finish_eq MAX_CONCURRENT_BATCHES_def
          starting_entry_def Let_def)
       (simp add: BATCH_SIZE_def)
qed

text \<open>Four full batches: the await on the first three writes precedes the fourth call.\<close>

theorem throttle_awaits_all_registered_witness:
  "trace (ingestSource (env_of (stream_of (replicate 20000 (Element (JObject 0))))) 0 source_B)
     = [starting_entry ''B'',
        SaveBatch 0 (replicate 5000 (JObject 0)),
        SaveBatch 1 (replicate 5000 (JObject 0)),
        SaveBatch 2 (replicate 5000 (JObject 0)),
        AwaitAllSettled [0, 1, 2]]
       @ SaveBatch (0 + 3) (replicate 5000 (JObject 0))
       # [AwaitAllSettled [3], finished_entry ''B'']
   \<and> AwaitAllSettled [0, Suc 0, Suc (Suc 0)]
       \<in> set [starting_entry ''B'',
               SaveBatch 0 (replicate 5000 (JObject 0)),
               SaveBatch 1 (replicate 5000 (JObject 0)),
               SaveBatch 2 (replicate 5000 (JObject 0)),
               AwaitAllSettled [0, 1, 2]]"
proof -
  let ?p = "[starting_entry ''B'',
        SaveBatch 0 (replicate 5000 (JObject 0)),
        SaveBatch 1 (replicate 5000 (JObject 0)),
        SaveBatch 2 (replicate 5000 (JObject 0)),
        AwaitAllSettled [0, 1, 2]]"
  have t: "trace (ingestSource (env_of (stream_of (replicate 20000 (Element (JObject 0))))) 0 source_B)
     = ?p @ SaveBatch (0 + 3) (replicate 5000 (JObject 0))
          # [AwaitAllSettled [3], finished_entry ''B'']"
    by (simp add: four_batches_run)
  from throttle_awaits_all_registered
    [of "env_of (stream_of (replicate 20000 (Element (JObject 0))))" 0 source_B] t
  have "AwaitAllSettled [0, Suc 0, Suc (Suc 0)] \<in> set ?p" by blast
  with t show ?thesis by blast
qed

text \<open>
  Claim C2 as stated fails: after the third call the loop awaits the writes 0, 1 and 2
  together; once write 0 alone has settled, fewer than \<^verbatim>\<open>MAX_CONCURRENT_BATCHES\<close> writes
  are unresolved, and the await does not resume.
\<close>

theorem throttle_waits_for_every_pending_write:
  "trace (ingestSource (env_of (stream_of (replicate 15000 (Element (JObject 0))))) 0 source_B)
     = [starting_entry ''B'',
        SaveBatch 0 (replicate 5000 (JObject 0)),
        SaveBatch 1 (replicate 5000 (JObject 0)),
        SaveBatch 2 (replicate 5000 (JObject 0)),
        AwaitAllSettled [0, 1, 2],
        AwaitAllSettled [],
        finished_entry ''B'']
   \<and> length (unresolved {0} [0, 1, 2]) < MAX_CONCURRENT_BATCHES
   \<and> \<not> allSettled_resumes {0} [0, 1, 2]"
  by (simp add: three_batches_run unresolved_def allSettled_resumes_def MAX_CONCURRENT_BATCHES_def)

text \<open>
  Claim C3, as amended. When the pull loop of a source runs to its end, every write
  submitted for the source has been awaited when the source is left. In every run,
  fewer than \<^verbatim>\<open>MAX_CONCURRENT_BATCHES\<close> writes are left unawaited.
\<close>

theorem completed_source_leaves_no_pending_write:
  "(pull_loop_completes env src \<longrightarrow> registered [] (trace (ingestSource env k src)) = [])
   \<and> length (registered [] (trace (ingestSource env k src))) < MAX_CONCURRENT_BATCHES"
  using ingestSource_limited [of k env src] by simp

text \<open>Three full batches, all awaited.\<close>

theorem completed_source_leaves_no_pending_write_witness:
  "pull_loop_completes (env_of (stream_of (replicate 15000 (Element (JObject 0))))) source_B
   \<and> registered [] (trace (ingestSource (env_of (stream_of (replicate 15000 (Element (JObject 0)))))
        0 source_B)) = []"
proof -
  have "mapper source_B (JObject 0) = Inr (JObject 0)" by (simp add: source_B_def)
  then have "pull_loop_completes (env_of (stream_of (replicate 15000 (Element (JObject 0))))) source_B"
    using returns_replicate [of "mapper source_B" "JObject 0"]
    by (simp add: pull_loop_completes_def env_of_def stream_of_def)
  with completed_source_leaves_no_pending_write
    [of "env_of (stream_of (replicate 15000 (Element (JObject 0))))" source_B 0]
  show ?thesis by simp
qed

text \<open>
  Claim C3 as stated fails when the mapper raises: the first 5000 elements fill a batch,
  whose write is submitted; the mapper raises on the next element and the source is left
  with that write never awaited.
\<close>

theorem aborted_source_leaves_write_unawaited:
  "trace (ingestSource (env_of (stream_of (replicate 5000 (Element (JObject 0)) @ [Element JNull])))
       0 source_A)
     = [starting_entry ''A'', SaveBatch 0 (replicate 5000 (JObject 0))]
   \<and> outcome (ingestSource (env_of (stream_of (replicate 5000 (Element (JObject 0)) @ [Element JNull])))
       0 source_A) = Some (ErrorObject ''unmappable'' None)
   \<and> registered [] (trace (ingestSource
        (env_of (stream_of (replicate 5000 (Element (JObject 0)) @ [Element JNull]))) 0 source_A))
     = [0]"
  by (simp add: aborted_run starting_entry_def)

lemma ingestSource_outcome: "(outcome (ingestSource env k src) = None) = source_healthy env src"
proof (cases rule: ingestSource_cases [where env = env and src = src and k = k])
  case (NoStream e)
  then show ?thesis by (simp add: source_healthy_def pull_loop_completes_def)
next
  case (LoopFails resp tr e st)
  from consume_completes [OF _ LoopFails(2)]
  have "\<not> list_all (mapper_returns (mapper src)) (delivered resp)"
    by (simp add: BATCH_SIZE_pos)
  with LoopFails show ?thesis by (simp add: source_healthy_def pull_loop_completes_def)
next
  case (IteratorFails resp tr e st)
  then show ?thesis by (simp add: source_healthy_def pull_loop_completes_def)
next
  case (Drained resp tr st)
  from consume_completes [OF _ Drained(2)]
  have "list_all (mapper_returns (mapper src)) (delivered resp)"
    by (simp add: BATCH_SIZE_pos)
  with Drained show ?thesis by (simp add: source_healthy_def pull_loop_completes_def)
qed

subsection \<open>The outcome of a source\<close>

lemma pipelineCallback_logs:
  "err \<noteq> ThrownNull \<Longrightarrow> err \<noteq> ThrownUndefined
     \<Longrightarrow> \<exists>msg. pipelineCallback nm err = [Entry ERROR (''Stream error for '' @ nm @ '': '' @ msg) None]"
  by (cases err) (simp_all add: pipelineCallback_def)

subsection \<open>Transport errors\<close>

text \<open>
  Claim C7, as amended. The \<^verbatim>\<open>pipeline\<close> callback only logs: when it fires, the loop goes
  on with the same state and ends as it would have without it, and every error value
  but null and undefined is logged with the name of the source. A source succeeds
  exactly when its stream opens, the mapper raises on no delivered element, the iterator
  completes and the byte stream finishes without error: the loop is left normally only
  on completion of the stream, and it is also left, the source failing, when the mapper
  or the iterator raises.
\<close>

theorem transport_error_is_only_logged:
  "consume repo nm f st (PipelineCallback err # rest)
     = (map Logged (pipelineCallback nm err) @ fst (consume repo nm f st rest),
        snd (consume repo nm f st rest))
   \<and> pipelineCallback nm (ErrorObject m stack)
       = [Entry ERROR (''Stream error for '' @ nm @ '': '' @ m) None]
   \<and> (err \<noteq> ThrownNull \<and> err \<noteq> ThrownUndefined \<longrightarrow>
        (\<exists>msg. pipelineCallback nm err
           = [Entry ERROR (''Stream error for '' @ nm @ '': '' @ msg) None]))
   \<and> ((outcome (ingestSource env k src) = None) = source_healthy env src)"
  using pipelineCallback_logs [of err nm] ingestSource_outcome [of env k src]
  by (simp add: pipelineCallback_def split: prod.splits)

text \<open>A transport error reported between two elements: logged, and the loop goes on.\<close>

theorem transport_error_is_only_logged_witness:
  "ThrownString ''reset'' \<noteq> ThrownNull \<and> ThrownString ''reset'' \<noteq> ThrownUndefined
   \<and> consume (\<lambda>k b. Resolves) ''B'' Inr \<lparr>batch = [], pendingSaves = [], saveCalls = 0\<rparr>
        [Element (JObject 1), PipelineCallback (ThrownString ''reset''), Element (JObject 2)]
       = ([Logged (Entry ERROR ''Stream error for B: reset'' None)], None,
          \<lparr>batch = [JObject 1, JObject 2], pendingSaves = [], saveCalls = 0\<rparr>)"
  using transport_error_is_only_logged
    [of "\<lambda>k b. Resolves" "''B''" Inr "\<lparr>batch = [JObject 1], pendingSaves = [], saveCalls = 0\<rparr>"
        "ThrownString ''reset''" "[Element (JObject 2)]"]
  by (simp add: loopBody_def pipelineCallback_def BATCH_SIZE_def Let_def)

text \<open>
  Claim C7 as stated fails: the stream delivers one element and fails; the error is
  logged by the callback and raised by the iterator, so the loop ends without the stream
  completing and the source fails, the record mapped so far never written.
\<close>

theorem iterator_error_ends_the_loop:
  "ingestSource (env_of broken_stream) 0 source_B =
     \<lparr>trace = [starting_entry ''B'',
               Logged (Entry ERROR ''Stream error for B: socket hang up'' None)],
      outcome = Some (ErrorObject ''socket hang up'' None),
      exit_state = \<lparr>batch = [JObject 1], pendingSaves = [], saveCalls = 0\<rparr>\<rparr>"
  by (simp add: env_of_def broken_stream_def source_B_def ingestSource_def loopBody_def
        pipelineCallback_def starting_entry_def BATCH_SIZE_def Let_def)

subsection \<open>Errors that cannot be rendered\<close>

text \<open>
  Claim C9 fails on the code. The repository rejects a write with, or throws, the value
  \<^verbatim>\<open>Object.create(null)\<close>: the \<^verbatim>\<open>catch\<close> block of \<^verbatim>\<open>saveBatch\<close> evaluates
  \<^verbatim>\<open>String(error)\<close>, which throws, so nothing is logged and the promise of \<^verbatim>\<open>saveBatch\<close>
  rejects with the conversion error.
\<close>

theorem saveBatch_rejects_when_rendering_throws:
  "saveBatch rejecting_bare 0 [JObject 1] = ([], RejectedWith conversion_error)
   \<and> saveBatch throwing_bare 0 [JObject 1] = ([], RejectedWith conversion_error)"
  by (simp add: saveBatch_def save_catch_def save_failure_def rejecting_bare_def
        throwing_bare_def bare_object_def)

text \<open>
  Claim C6 fails on the code at the same rejection value. A source of one element has its
  only write rejected with \<^verbatim>\<open>Object.create(null)\<close>: the source still runs to its end, but
  the failure of the write is logged nowhere and the promise registered for it is
  rejected, not fulfilled.
\<close>

theorem unrenderable_write_failure_is_not_logged:
  "ingestSource ((env_of (stream_of [Element (JObject 1)]))\<lparr>saveAll := rejecting_bare\<rparr>) 0 source_B
     = \<lparr>trace = [starting_entry ''B'', SaveBatch 0 [JObject 1], AwaitAllSettled [0],
                 finished_entry ''B''],
        outcome = None,
        exit_state = \<lparr>batch = [], pendingSaves = [], saveCalls = 1\<rparr>\<rparr>
   \<and> write_log rejecting_bare
         [starting_entry ''B'', SaveBatch 0 [JObject 1], AwaitAllSettled [0], finished_entry ''B'']
       = []
   \<and> snd (saveBatch rejecting_bare 0 [JObject 1]) = RejectedWith conversion_error"
  by (simp add: env_of_def stream_of_def source_B_def ingestSource_def loopBody_def finish_eq
        BATCH_SIZE_def Let_def write_log_def saveBatch_def save_catch_def save_failure_def
        rejecting_bare_def bare_object_def)

text \<open>
  Claim C5 fails on the code. The mapper of source C throws \<^verbatim>\<open>Object.create(null)\<close> on its
  first element; the \<^verbatim>\<open>catch\<close> clause of \<^verbatim>\<open>ingestAll\<close> evaluates \<^verbatim>\<open>String(error)\<close>, which
  throws: nothing is logged for source C, \<^verbatim>\<open>ingestAll\<close> itself rejects with the conversion
  error, and source B, registered after C, is never started.
\<close>

theorem ingestAll_rejects_when_rendering_throws:
  "ingestAll (env_of (stream_of [Element (JObject 1)])) \<lparr>sources = [source_C, source_B]\<rparr>
     = ([starting_entry ''C''], Some conversion_error)"
  by (simp add: ingestAll_def env_of_def stream_of_def source_C_def ingestSource_def
        loopBody_def try_catch_def ingest_catch_def ingestion_failure_def bare_object_def
        Let_def)

end
